theory Spec2Isabelle
  imports Complex_Main "HOL-Library.Sublist" "HOL-Library.Char_ord" "HOL-Library.List_Lexorder"
begin

section \<open>Data model\<close>

text \<open>
  Python floats. A finite double is represented by the rational number it denotes; the
  three non-finite values are kept apart, because requests can carry them and because
  comparisons with NaN are false. Rounding is not modelled: \<open>int / int\<close> below is the
  exact quotient.
\<close>

datatype float64 = Finite rat | PosInf | NegInf | NaN

text \<open>The comparison \<open>a >= b\<close> on floats (IEEE 754: false as soon as one side is NaN).\<close>

fun float_ge :: "float64 \<Rightarrow> float64 \<Rightarrow> bool" where
  "float_ge NaN _ = False"
| "float_ge _ NaN = False"
| "float_ge (Finite x) (Finite y) = (y \<le> x)"
| "float_ge PosInf _ = True"
| "float_ge _ NegInf = True"
| "float_ge (Finite _) PosInf = False"
| "float_ge NegInf _ = False"

text \<open>Exceptions are values. A Python exception raised below the request handler is
  \<open>PyError\<close> with its class name and its message (\<open>str(e)\<close>); inside the handler an
  exception is either FastAPI's \<open>HTTPException\<close> (status code, detail) or one of those.\<close>

datatype py_error = PyError string string

datatype exn = HTTPException int string | Other py_error

text \<open>True division of two Python ints.\<close>

definition int_truediv :: "int \<Rightarrow> int \<Rightarrow> py_error + float64" where
  "int_truediv a b =
     (if b = 0 then Inl (PyError ''ZeroDivisionError'' ''division by zero'')
      else Inr (Finite (of_int a / of_int b)))"

text \<open>\<open>DataPoint\<close> of the request, and \<open>PointAnomaly\<close> (the same two fields, then score and
  flag). \<open>anomalies_to_json\<close> turns a \<open>PointAnomaly\<close> into a dict with exactly these four
  keys, so a point result is this record; \<open>bool(p.get("is_anomaly"))\<close> is the field
  \<open>is_anomaly\<close> and \<open>str(p.get("timestamp"))\<close> is the field \<open>timestamp\<close>.\<close>

record data_point =
  timestamp :: string
  "value" :: float64

record point_anomaly = data_point +
  score :: float64
  is_anomaly :: bool

record rules =
  ratio_threshold :: float64
  streak_threshold :: int

text \<open>The dict returned by \<open>_segment_summary\<close>; a key that the dict does not have is
  \<open>None\<close>.\<close>

record segment_verdict =
  is_segment_anomaly :: bool
  reason :: "string option"
  anomaly_ratio :: "float64 option"
  max_consecutive_anomaly :: "int option"
  rules :: rules

record anomaly =
  start :: string
  "end" :: string

section \<open>Segment aggregator\<close>

text \<open>\<open>sum(anomaly_flags)\<close>: a Python bool counts as 1 or 0.\<close>

fun sum_flags :: "bool list \<Rightarrow> int" where
  "sum_flags [] = 0"
| "sum_flags (f # fs) = (if f then 1 else 0) + sum_flags fs"

text \<open>The loop over \<open>anomaly_flags\<close>, with its two variables as arguments.\<close>

fun streak_loop :: "int \<Rightarrow> int \<Rightarrow> bool list \<Rightarrow> int" where
  "streak_loop max_streak current_streak [] = max_streak"
| "streak_loop max_streak current_streak (flag # fs) =
     (if flag then streak_loop (max max_streak (current_streak + 1)) (current_streak + 1) fs
      else streak_loop max_streak 0 fs)"

definition segment_summary :: "point_anomaly list \<Rightarrow> float64 \<Rightarrow> int \<Rightarrow> py_error + segment_verdict" where
  "segment_summary point_results ratio_thr streak_thr =
     (let total = int (length point_results) in
      if total = 0 then
        Inr \<lparr>is_segment_anomaly = False, reason = Some ''empty'',
             anomaly_ratio = None, max_consecutive_anomaly = None,
             rules = \<lparr>ratio_threshold = ratio_thr, streak_threshold = streak_thr\<rparr>\<rparr>
      else
        let anomaly_flags = map is_anomaly point_results in
        case int_truediv (sum_flags anomaly_flags) total of
          Inl e \<Rightarrow> Inl e
        | Inr ratio \<Rightarrow>
            let max_streak = streak_loop 0 0 anomaly_flags;
                is_anom = (float_ge ratio ratio_thr \<or> streak_thr \<le> max_streak)
            in Inr \<lparr>is_segment_anomaly = is_anom, reason = None,
                    anomaly_ratio = Some ratio, max_consecutive_anomaly = Some max_streak,
                    rules = \<lparr>ratio_threshold = ratio_thr, streak_threshold = streak_thr\<rparr>\<rparr>)"

section \<open>Interval extractor\<close>

text \<open>The inner loop \<open>while i < n and bool(point_results[i].get("is_anomaly")): i += 1\<close>;
  it returns the value of \<open>i\<close> at which it stops.\<close>

function skip_run :: "point_anomaly list \<Rightarrow> nat \<Rightarrow> nat" where
  "skip_run point_results i =
     (if i < length point_results \<and> is_anomaly (point_results ! i)
      then skip_run point_results (i + 1) else i)"
  by pat_completeness auto
termination
  by (relation "measure (\<lambda>(ps, i). length ps - i)") auto

declare skip_run.simps [simp del]

lemma skip_run_ge: "i \<le> skip_run ps i"
proof (induction ps i rule: skip_run.induct)
  case (1 ps i)
  show ?case
  proof (cases "i < length ps \<and> is_anomaly (ps ! i)")
    case True
    with "1" have "i + 1 \<le> skip_run ps (i + 1)" by simp
    with True show ?thesis by (subst skip_run.simps) simp
  next
    case False
    then show ?thesis by (subst skip_run.simps) auto
  qed
qed

lemma skip_run_gt: "i < length ps \<Longrightarrow> is_anomaly (ps ! i) \<Longrightarrow> i < skip_run ps i"
  using skip_run_ge [of "i + 1" ps] by (subst skip_run.simps) simp

text \<open>The outer loop, with \<open>i\<close> and \<open>intervals\<close> as arguments. Every index is read
  below \<open>n\<close>; \<open>end_idx = i - 1\<close> is computed after the inner loop has advanced \<open>i\<close> past
  \<open>start_idx\<close>, so the subtraction never goes below zero.\<close>

function extract_loop :: "point_anomaly list \<Rightarrow> nat \<Rightarrow> anomaly list \<Rightarrow> anomaly list" where
  "extract_loop point_results i intervals =
     (if i < length point_results then
        if \<not> is_anomaly (point_results ! i) then extract_loop point_results (i + 1) intervals
        else
          let start_idx = i;
              i' = skip_run point_results i;
              end_idx = i' - 1;
              start_ts = timestamp (point_results ! start_idx);
              end_ts = timestamp (point_results ! end_idx)
          in extract_loop point_results i' (intervals @ [\<lparr>start = start_ts, end = end_ts\<rparr>])
      else intervals)"
  by pat_completeness auto
termination
  by (relation "measure (\<lambda>(ps, i, acc). length ps - i)")
     (auto simp: skip_run_gt diff_less_mono2)

declare extract_loop.simps [simp del]

definition extract_anomaly_intervals :: "point_anomaly list \<Rightarrow> anomaly list" where
  "extract_anomaly_intervals point_results = extract_loop point_results 0 []"

text \<open>The same loop, recording the index pair \<open>(start_idx, end_idx)\<close> of each interval
  instead of the two timestamps. It is not in the source: it names the positions that
  the emitted timestamps are read from.\<close>

function run_loop :: "point_anomaly list \<Rightarrow> nat \<Rightarrow> (nat \<times> nat) list \<Rightarrow> (nat \<times> nat) list" where
  "run_loop point_results i runs =
     (if i < length point_results then
        if \<not> is_anomaly (point_results ! i) then run_loop point_results (i + 1) runs
        else
          let start_idx = i;
              i' = skip_run point_results i;
              end_idx = i' - 1
          in run_loop point_results i' (runs @ [(start_idx, end_idx)])
      else runs)"
  by pat_completeness auto
termination
  by (relation "measure (\<lambda>(ps, i, acc). length ps - i)")
     (auto simp: skip_run_gt diff_less_mono2)

declare run_loop.simps [simp del]

definition run_indices :: "point_anomaly list \<Rightarrow> (nat \<times> nat) list" where
  "run_indices point_results = run_loop point_results 0 []"

definition interval_of :: "point_anomaly list \<Rightarrow> nat \<times> nat \<Rightarrow> anomaly" where
  "interval_of ps r = \<lparr>start = timestamp (ps ! fst r), end = timestamp (ps ! snd r)\<rparr>"

section \<open>Request handler\<close>

record metadata =
  alert_name :: "string option"
  severity :: "string option"
  labels :: "(string \<times> string) list"

text \<open>\<open>DetectRequest\<close> and \<open>DetectResponse\<close>. The fields \<open>metadata\<close>, \<open>ratio_threshold\<close> and
  \<open>streak_threshold\<close> carry a prefix here, since record fields share one name space.\<close>

record detect_request =
  req_metadata :: "metadata option"
  data :: "data_point list"
  contamination :: float64
  random_state :: int
  req_ratio_threshold :: float64
  req_streak_threshold :: int

record detect_response =
  resp_metadata :: "metadata option"
  anomalies :: "anomaly list"

text \<open>A pandas frame: its column labels and its rows. \<open>pd.DataFrame\<close> of a list of dicts
  takes the columns from the dicts' keys, so the frame of an empty list has no columns.\<close>

datatype dataframe = DataFrame (columns: "string list") (rows: "data_point list")

definition pd_DataFrame :: "data_point list \<Rightarrow> dataframe" where
  "pd_DataFrame records =
     DataFrame (if records = [] then [] else [''timestamp'', ''value'']) records"

text \<open>pandas and scikit-learn are not part of the repository; what the code calls in them
  is a parameter of the model. \<open>sort_values\<close> stands for
  \<open>df.sort_values("timestamp").reset_index(drop=True)\<close> on the rows. \<open>isolation_forest\<close>
  stands for building \<open>IsolationForest(n_estimators, contamination, random_state,
  max_samples="auto", n_jobs=-1)\<close>, fitting it on the values and returning
  \<open>(predict, decision_function)\<close> on the same values, or the exception raised on the
  way.\<close>

record libraries =
  sort_values :: "data_point list \<Rightarrow> data_point list"
  isolation_forest :: "int \<Rightarrow> float64 \<Rightarrow> int \<Rightarrow> float64 list \<Rightarrow> py_error + (int list \<times> float64 list)"

definition detect_point_anomalies ::
  "libraries \<Rightarrow> float64 list \<Rightarrow> float64 \<Rightarrow> int \<Rightarrow> py_error + (int list \<times> float64 list)" where
  "detect_point_anomalies lib values cont rs = isolation_forest lib 200 cont rs values"

text \<open>\<open>df["value"]\<close> and \<open>df["timestamp"]\<close> raise KeyError on a frame without the column.
  \<open>zip\<close> stops at the shortest of its four arguments.\<close>

definition run_isolation_forest ::
  "libraries \<Rightarrow> dataframe \<Rightarrow> float64 \<Rightarrow> int \<Rightarrow> py_error + point_anomaly list" where
  "run_isolation_forest lib df cont rs =
     (if ''value'' \<notin> set (columns df) then Inl (PyError ''KeyError'' (CHR 0x27 # ''value'' @ [CHR 0x27]))
      else
        let values = map value (rows df) in
        case detect_point_anomalies lib values cont rs of
          Inl e \<Rightarrow> Inl e
        | Inr (pred_labels, scores) \<Rightarrow>
            if ''timestamp'' \<notin> set (columns df) then Inl (PyError ''KeyError'' (CHR 0x27 # ''timestamp'' @ [CHR 0x27]))
            else
              Inr (map (\<lambda>(ts, val, sc, label).
                          \<lparr>timestamp = ts, value = val, score = sc, is_anomaly = (label = - 1)\<rparr>)
                     (zip (map timestamp (rows df)) (zip values (zip scores pred_labels)))))"

text \<open>The body of the \<open>try\<close> block of \<open>detect\<close>. \<open>anomalies_to_json\<close> keeps the four
  fields of each point, and the final list comprehension rebuilds each interval from its
  two fields, so both are the identity on the records used here.\<close>

definition detect_body :: "libraries \<Rightarrow> detect_request \<Rightarrow> exn + detect_response" where
  "detect_body lib req =
     (let df = pd_DataFrame (data req) in
      if \<not> set [''timestamp'', ''value''] \<subseteq> set (columns df) then
        Inl (HTTPException 400 ''data points must include timestamp and value'')
      else
        let df = DataFrame (columns df) (sort_values lib (rows df)) in
        case run_isolation_forest lib df (contamination req) (random_state req) of
          Inl e \<Rightarrow> Inl (Other e)
        | Inr point_json \<Rightarrow>
            (case segment_summary point_json (req_ratio_threshold req) (req_streak_threshold req) of
               Inl e \<Rightarrow> Inl (Other e)
             | Inr seg \<Rightarrow>
                 let intervals =
                       (if is_segment_anomaly seg then extract_anomaly_intervals point_json else [])
                 in Inr \<lparr>resp_metadata = req_metadata req, anomalies = intervals\<rparr>))"

text \<open>The two \<open>except\<close> clauses: an \<open>HTTPException\<close> is raised again as it is, anything else
  becomes status 500 with the exception's message in the detail.\<close>

definition detect :: "libraries \<Rightarrow> detect_request \<Rightarrow> exn + detect_response" where
  "detect lib req =
     (case detect_body lib req of
        Inl (HTTPException code detail) \<Rightarrow> Inl (HTTPException code detail)
      | Inl (Other (PyError cls msg)) \<Rightarrow> Inl (HTTPException 500 (''detection failed: '' @ msg))
      | Inr resp \<Rightarrow> Inr resp)"

text \<open>The HTTP status the caller sees: 200 for a response, the exception's code otherwise
  (an exception that is not an \<open>HTTPException\<close> is a 500 in FastAPI).\<close>

fun status_code :: "exn + detect_response \<Rightarrow> int" where
  "status_code (Inr _) = 200"
| "status_code (Inl (HTTPException code _)) = code"
| "status_code (Inl (Other _)) = 500"

section \<open>Maximal runs\<close>

text \<open>What the specification calls a maximal run of flagged points, by positions: the
  points from \<open>s\<close> to \<open>e\<close> are all flagged, and the run can be extended on neither side.
  \<open>maximal_runs\<close> lists the maximal runs in the order of their first position.\<close>

definition maximal_run :: "point_anomaly list \<Rightarrow> nat \<Rightarrow> nat \<Rightarrow> bool" where
  "maximal_run ps s e \<longleftrightarrow>
     s \<le> e \<and> e < length ps \<and>
     (\<forall>k \<in> set [s..<Suc e]. is_anomaly (ps ! k)) \<and>
     (s = 0 \<or> \<not> is_anomaly (ps ! (s - 1))) \<and>
     (Suc e = length ps \<or> \<not> is_anomaly (ps ! Suc e))"

definition runs_from :: "point_anomaly list \<Rightarrow> nat \<Rightarrow> (nat \<times> nat) list" where
  "runs_from ps i =
     concat (map (\<lambda>s. map (Pair s) (filter (maximal_run ps s) [s..<length ps])) [i..<length ps])"

definition maximal_runs :: "point_anomaly list \<Rightarrow> (nat \<times> nat) list" where
  "maximal_runs ps = runs_from ps 0"

text \<open>Two index pairs are separated when a point that is not flagged lies strictly between
  the end of the first and the start of the second.\<close>

definition separated :: "point_anomaly list \<Rightarrow> nat \<times> nat \<Rightarrow> nat \<times> nat \<Rightarrow> bool" where
  "separated ps r r' \<longleftrightarrow> (\<exists>k \<in> set [Suc (snd r)..<fst r']. \<not> is_anomaly (ps ! k))"

section \<open>Ratio and streak, as the specification states them\<close>

text \<open>The number of flagged points.\<close>

definition count_flagged :: "point_anomaly list \<Rightarrow> nat" where
  "count_flagged ps = length (filter is_anomaly ps)"




section \<open>Sample inputs\<close>

text \<open>A point result with a given timestamp and flag; value and score play no part in
  aggregation and extraction.\<close>

definition point :: "string \<Rightarrow> bool \<Rightarrow> point_anomaly" where
  "point ts flag = \<lparr>timestamp = ts, value = Finite 0, score = Finite 0, is_anomaly = flag\<rparr>"

definition spec_example :: "point_anomaly list" where
  "spec_example =
     [point ''t0'' False, point ''t1'' False, point ''t2'' True, point ''t3'' True,
      point ''t4'' False, point ''t5'' True, point ''t6'' False, point ''t7'' False,
      point ''t8'' True, point ''t9'' True, point ''t10'' True]"

definition cover_example :: "point_anomaly list" where
  "cover_example =
     [point ''09:00'' True, point ''09:01'' True, point ''09:02'' False,
      point ''09:03'' False, point ''09:04'' True]"



definition sparse_example :: "point_anomaly list" where
  "sparse_example = [point ''t0'' False, point ''t1'' True, point ''t2'' False, point ''t3'' False]"

definition dense_example :: "point_anomaly list" where
  "dense_example = [point ''t0'' True, point ''t1'' True, point ''t2'' False, point ''t3'' True]"

section \<open>A stand-in for the libraries\<close>

text \<open>Concrete evaluations need some instance of the library parameter. \<open>stub_forest\<close>
  rejects what scikit-learn's parameter and input validation rejects (a contamination
  outside (0, 0.5], an array with no sample, a value that is not finite) with an exception
  that is not an \<open>HTTPException\<close>; its messages are placeholders. On valid input it flags
  the values of at least 100. \<open>stub_libs\<close> pairs it with a stable sort by timestamp.\<close>

fun valid_contamination :: "float64 \<Rightarrow> bool" where
  "valid_contamination (Finite c) = (0 < c \<and> c \<le> 1 / 2)"
| "valid_contamination _ = False"

fun is_finite :: "float64 \<Rightarrow> bool" where
  "is_finite (Finite _) = True"
| "is_finite _ = False"

definition stub_forest :: "int \<Rightarrow> float64 \<Rightarrow> int \<Rightarrow> float64 list \<Rightarrow> py_error + (int list \<times> float64 list)" where
  "stub_forest n_estimators cont rs values =
     (if \<not> valid_contamination cont then
        Inl (PyError ''InvalidParameterError'' ''contamination must be in the range (0.0, 0.5]'')
      else if values = [] then
        Inl (PyError ''ValueError'' ''Found array with 0 sample(s)'')
      else if \<not> list_all is_finite values then
        Inl (PyError ''ValueError'' ''Input X contains NaN or infinity'')
      else
        Inr (map (\<lambda>v. if float_ge v (Finite 100) then - 1 else 1) values,
             map (\<lambda>v. if float_ge v (Finite 100) then Finite (- 1 / 10) else Finite (1 / 10)) values))"

definition stub_libs :: libraries where
  "stub_libs = \<lparr>sort_values = sort_key timestamp, isolation_forest = stub_forest\<rparr>"

text \<open>Requests and scored points for the examples; \<open>request\<close> uses the default seed and
  thresholds.\<close>

definition obs :: "string \<Rightarrow> float64 \<Rightarrow> data_point" where
  "obs ts v = \<lparr>timestamp = ts, value = v\<rparr>"

definition request :: "data_point list \<Rightarrow> float64 \<Rightarrow> detect_request" where
  "request points cont =
     \<lparr>req_metadata = None, data = points, contamination = cont, random_state = 42,
      req_ratio_threshold = Finite (1 / 5), req_streak_threshold = 20\<rparr>"

definition quiet_series :: "data_point list" where
  "quiet_series =
     [obs ''t2'' (Finite 11), obs ''t1'' (Finite 10), obs ''t3'' (Finite 500),
      obs ''t4'' (Finite 12), obs ''t5'' (Finite 9), obs ''t6'' (Finite 10)]"

definition scored :: "string \<Rightarrow> rat \<Rightarrow> bool \<Rightarrow> point_anomaly" where
  "scored ts v flag =
     \<lparr>timestamp = ts, value = Finite v,
      score = (if flag then Finite (- 1 / 10) else Finite (1 / 10)), is_anomaly = flag\<rparr>"

definition quiet_points :: "point_anomaly list" where
  "quiet_points =
     [scored ''t1'' 10 False, scored ''t2'' 11 False, scored ''t3'' 500 True,
      scored ''t4'' 12 False, scored ''t5'' 9 False, scored ''t6'' 10 False]"

definition labelled_request :: detect_request where
  "labelled_request =
     \<lparr>req_metadata = Some \<lparr>alert_name = Some ''cpu'', severity = Some ''P1'', labels = [(''env'', ''prod'')]\<rparr>,
      data = [], contamination = Finite (1 / 10), random_state = 7,
      req_ratio_threshold = Finite (1 / 20), req_streak_threshold = 3\<rparr>"

section \<open>Properties of the extractor loops\<close>

lemma skip_run_le: "i \<le> length ps \<Longrightarrow> skip_run ps i \<le> length ps"
proof (induction ps i rule: skip_run.induct)
  case (1 ps i)
  show ?case
  proof (cases "i < length ps \<and> is_anomaly (ps ! i)")
    case True
    with "1" have "skip_run ps (i + 1) \<le> length ps" by simp
    with True show ?thesis by (subst skip_run.simps) simp
  next
    case False
    with "1.prems" show ?thesis by (subst skip_run.simps) auto
  qed
qed

lemma extract_loop_run_loop:
  "extract_loop ps i (map (interval_of ps) runs) = map (interval_of ps) (run_loop ps i runs)"
proof (induction ps i runs rule: run_loop.induct)
  case (1 ps i runs)
  show ?case
  proof (cases "i < length ps")
    case False
    then show ?thesis by (simp add: extract_loop.simps [of ps i] run_loop.simps [of ps i])
  next
    case inb: True
    show ?thesis
    proof (cases "is_anomaly (ps ! i)")
      case False
      with inb "1.IH"(1) show ?thesis
        by (simp add: extract_loop.simps [of ps i] run_loop.simps [of ps i])
    next
      case True
      have app: "map (interval_of ps) (runs @ [(i, skip_run ps i - 1)]) =
                 map (interval_of ps) runs @
                 [\<lparr>start = timestamp (ps ! i), end = timestamp (ps ! (skip_run ps i - 1))\<rparr>]"
        by (simp add: interval_of_def)
      have "extract_loop ps (skip_run ps i) (map (interval_of ps) (runs @ [(i, skip_run ps i - 1)])) =
            map (interval_of ps) (run_loop ps (skip_run ps i) (runs @ [(i, skip_run ps i - 1)]))"
        using "1.IH"(2) [OF inb _ refl refl refl] True by simp
      with inb True app show ?thesis
        by (simp add: extract_loop.simps [of ps i] run_loop.simps [of ps i] Let_def)
    qed
  qed
qed

lemma skip_run_flagged: "i \<le> k \<Longrightarrow> k < skip_run ps i \<Longrightarrow> is_anomaly (ps ! k) \<and> k < length ps"
proof (induction ps i rule: skip_run.induct)
  case (1 ps i)
  show ?case
  proof (cases "i < length ps \<and> is_anomaly (ps ! i)")
    case True
    then have eq: "skip_run ps i = skip_run ps (i + 1)" by (subst skip_run.simps) simp
    show ?thesis
    proof (cases "k = i")
      case True
      with \<open>i < length ps \<and> is_anomaly (ps ! i)\<close> show ?thesis by simp
    next
      case False
      with "1.prems" have "i + 1 \<le> k" by simp
      with "1.IH" True "1.prems" eq show ?thesis by simp
    qed
  next
    case False
    then have "skip_run ps i = i" by (subst skip_run.simps) auto
    with "1.prems" show ?thesis by simp
  qed
qed

lemma skip_run_stop: "skip_run ps i < length ps \<Longrightarrow> \<not> is_anomaly (ps ! skip_run ps i)"
proof (induction ps i rule: skip_run.induct)
  case (1 ps i)
  show ?case
  proof (cases "i < length ps \<and> is_anomaly (ps ! i)")
    case True
    then have eq: "skip_run ps i = skip_run ps (i + 1)" by (subst skip_run.simps) simp
    with "1.IH" True "1.prems" show ?thesis by simp
  next
    case False
    then have "skip_run ps i = i" by (subst skip_run.simps) auto
    with False "1.prems" show ?thesis by simp
  qed
qed

lemma maximal_run_iff:
  "maximal_run ps s e \<longleftrightarrow>
     s \<le> e \<and> e < length ps \<and> (\<forall>k. s \<le> k \<and> k \<le> e \<longrightarrow> is_anomaly (ps ! k)) \<and>
     (s = 0 \<or> \<not> is_anomaly (ps ! (s - 1))) \<and>
     (Suc e = length ps \<or> \<not> is_anomaly (ps ! Suc e))"
  unfolding maximal_run_def Ball_def set_upt atLeastLessThan_iff less_Suc_eq_le by (rule refl)

lemma maximal_run_start:
  "maximal_run ps s e \<Longrightarrow> is_anomaly (ps ! s) \<and> (s = 0 \<or> \<not> is_anomaly (ps ! (s - 1)))"
  unfolding maximal_run_iff by blast

lemma maximal_run_unique_end:
  assumes "maximal_run ps s e" and "maximal_run ps s e'"
  shows "e = e'"
proof -
  have less: "False" if a: "maximal_run ps s x" and b: "maximal_run ps s y" and "x < y" for x y
  proof -
    from a have sx: "s \<le> x" and stop: "Suc x = length ps \<or> \<not> is_anomaly (ps ! Suc x)"
      unfolding maximal_run_iff by blast+
    from b have "y < length ps" and all: "\<forall>k. s \<le> k \<and> k \<le> y \<longrightarrow> is_anomaly (ps ! k)"
      unfolding maximal_run_iff by blast+
    from all sx \<open>x < y\<close> have "is_anomaly (ps ! Suc x)" by simp
    moreover from \<open>x < y\<close> \<open>y < length ps\<close> have "Suc x \<noteq> length ps" by simp
    ultimately show False using stop by blast
  qed
  from less [OF assms] less [OF assms(2,1)] show ?thesis by (cases e e' rule: linorder_cases) auto
qed

lemma maximal_run_skip:
  assumes "i < length ps" and "is_anomaly (ps ! i)" and "i = 0 \<or> \<not> is_anomaly (ps ! (i - 1))"
  shows "maximal_run ps i (skip_run ps i - 1)"
proof -
  let ?j = "skip_run ps i"
  have gt: "i < ?j" using assms by (simp add: skip_run_gt)
  have le: "?j \<le> length ps" using assms by (simp add: skip_run_le)
  have all: "is_anomaly (ps ! k)" if "i \<le> k" "k < ?j" for k
    using that skip_run_flagged by blast
  have stop: "?j = length ps \<or> \<not> is_anomaly (ps ! ?j)"
    using le skip_run_stop [of ps i] by (cases "?j < length ps") auto
  have "i \<le> ?j - 1" "?j - 1 < length ps" "Suc (?j - 1) = ?j" using gt le by simp_all
  moreover have "\<forall>k. i \<le> k \<and> k \<le> ?j - 1 \<longrightarrow> is_anomaly (ps ! k)"
  proof (intro allI impI)
    fix k assume "i \<le> k \<and> k \<le> ?j - 1"
    with gt have "i \<le> k" "k < ?j" by arith+
    then show "is_anomaly (ps ! k)" by (rule all)
  qed
  ultimately show ?thesis
    unfolding maximal_run_iff using stop assms(3) by simp
qed

lemma filter_unique:
  assumes "distinct xs" and "x \<in> set xs" and "P x"
    and uniq: "\<And>y. y \<in> set xs \<Longrightarrow> P y \<Longrightarrow> y = x"
  shows "filter P xs = [x]"
proof -
  from \<open>x \<in> set xs\<close> obtain ys zs where xs: "xs = ys @ x # zs"
    by (auto simp: in_set_conv_decomp)
  with \<open>distinct xs\<close> have "x \<notin> set ys" "x \<notin> set zs" by auto
  with uniq xs have "\<forall>y \<in> set ys. \<not> P y" "\<forall>y \<in> set zs. \<not> P y" by auto
  then have "filter P ys = []" "filter P zs = []" by (simp_all add: filter_empty_conv)
  with xs \<open>P x\<close> show ?thesis by simp
qed

lemma ends_empty:
  assumes "\<not> is_anomaly (ps ! s) \<or> (0 < s \<and> is_anomaly (ps ! (s - 1)))"
  shows "filter (maximal_run ps s) [s..<length ps] = []"
  using assms maximal_run_start [of ps s] by (auto simp: filter_empty_conv)

lemma ends_single:
  assumes "i < length ps" and "is_anomaly (ps ! i)" and "i = 0 \<or> \<not> is_anomaly (ps ! (i - 1))"
  shows "filter (maximal_run ps i) [i..<length ps] = [skip_run ps i - 1]"
proof (rule filter_unique)
  have m: "maximal_run ps i (skip_run ps i - 1)" using assms by (rule maximal_run_skip)
  show "distinct [i..<length ps]" by simp
  from m show "skip_run ps i - 1 \<in> set [i..<length ps]" unfolding maximal_run_iff by simp
  from m show "maximal_run ps i (skip_run ps i - 1)" .
  fix y assume "maximal_run ps i y"
  then show "y = skip_run ps i - 1" using m by (rule maximal_run_unique_end)
qed

lemma runs_from_end: "runs_from ps (length ps) = []"
  by (simp add: runs_from_def)

lemma runs_from_step:
  "i < length ps \<Longrightarrow>
   runs_from ps i = map (Pair i) (filter (maximal_run ps i) [i..<length ps]) @ runs_from ps (Suc i)"
  by (simp add: runs_from_def upt_conv_Cons)

lemma runs_from_skip:
  assumes "i \<le> j" and "j \<le> length ps"
    and "\<And>s. i \<le> s \<Longrightarrow> s < j \<Longrightarrow> filter (maximal_run ps s) [s..<length ps] = []"
  shows "runs_from ps i = runs_from ps j"
  using assms
proof (induction "j - i" arbitrary: i)
  case 0
  then show ?case by simp
next
  case (Suc d)
  then have "i < length ps" "i < j" by auto
  with Suc.prems have "runs_from ps i = runs_from ps (Suc i)"
    by (simp add: runs_from_step)
  also have "\<dots> = runs_from ps j"
    using Suc.hyps(2) Suc.prems \<open>i < j\<close> by (intro Suc.hyps(1)) auto
  finally show ?case .
qed

lemma run_loop_runs_from:
  assumes "i \<le> length ps"
    and "i = 0 \<or> i = length ps \<or> \<not> is_anomaly (ps ! (i - 1)) \<or> \<not> is_anomaly (ps ! i)"
  shows "run_loop ps i runs = runs @ runs_from ps i"
  using assms
proof (induction ps i runs rule: run_loop.induct)
  case (1 ps i runs)
  show ?case
  proof (cases "i < length ps")
    case False
    with "1.prems" have "i = length ps" by simp
    then show ?thesis by (simp add: run_loop.simps [of ps "length ps"] runs_from_end)
  next
    case inb: True
    show ?thesis
    proof (cases "is_anomaly (ps ! i)")
      case False
      have "run_loop ps (i + 1) runs = runs @ runs_from ps (i + 1)"
        using "1.IH"(1) [OF inb] False inb by simp
      moreover have "runs_from ps i = runs_from ps (Suc i)"
        using inb False by (simp add: runs_from_step ends_empty)
      ultimately show ?thesis using inb False
        by (simp add: run_loop.simps [of ps i])
    next
      case True
      let ?j = "skip_run ps i"
      have start: "i = 0 \<or> \<not> is_anomaly (ps ! (i - 1))" using "1.prems" inb True by auto
      have gt: "i < ?j" using inb True by (simp add: skip_run_gt)
      have le: "?j \<le> length ps" using inb by (simp add: skip_run_le)
      have stop: "?j = length ps \<or> \<not> is_anomaly (ps ! ?j)"
        using le skip_run_stop [of ps i] by (cases "?j < length ps") auto
      have ih: "run_loop ps ?j (runs @ [(i, ?j - 1)]) = (runs @ [(i, ?j - 1)]) @ runs_from ps ?j"
        using "1.IH"(2) [OF inb _ refl refl refl] True le stop by auto
      have "runs_from ps i = [(i, ?j - 1)] @ runs_from ps (Suc i)"
        using inb True start by (simp add: runs_from_step ends_single)
      also have "runs_from ps (Suc i) = runs_from ps ?j"
      proof (rule runs_from_skip)
        show "Suc i \<le> ?j" using gt by simp
        show "?j \<le> length ps" by (rule le)
        fix s assume "Suc i \<le> s" "s < ?j"
        then have "is_anomaly (ps ! (s - 1))" "0 < s"
          using skip_run_flagged [of i "s - 1" ps] by auto
        then show "filter (maximal_run ps s) [s..<length ps] = []"
          by (simp add: ends_empty)
      qed
      finally show ?thesis using ih inb True
        by (simp add: run_loop.simps [of ps i] Let_def)
    qed
  qed
qed

lemma mem_runs_from:
  "(s, e) \<in> set (runs_from ps i) \<longleftrightarrow> i \<le> s \<and> maximal_run ps s e"
proof
  assume "(s, e) \<in> set (runs_from ps i)"
  then show "i \<le> s \<and> maximal_run ps s e" by (auto simp: runs_from_def)
next
  assume a: "i \<le> s \<and> maximal_run ps s e"
  then have "s \<le> e" "e < length ps" unfolding maximal_run_iff by blast+
  with a show "(s, e) \<in> set (runs_from ps i)" by (auto simp: runs_from_def)
qed

lemma maximal_run_order:
  assumes a: "maximal_run ps s e" and b: "maximal_run ps s' e'" and "s < s'"
  shows "Suc e < s' \<and> \<not> is_anomaly (ps ! Suc e)"
proof -
  from a have all: "\<forall>k. s \<le> k \<and> k \<le> e \<longrightarrow> is_anomaly (ps ! k)"
    and stop: "Suc e = length ps \<or> \<not> is_anomaly (ps ! Suc e)"
    unfolding maximal_run_iff by blast+
  from b have s': "is_anomaly (ps ! s')" "s' = 0 \<or> \<not> is_anomaly (ps ! (s' - 1))" "s' < length ps"
    unfolding maximal_run_iff by auto
  have "e < s'"
  proof (rule ccontr)
    assume "\<not> e < s'"
    with \<open>s < s'\<close> have "s \<le> s' - 1" "s' - 1 \<le> e" "s' \<noteq> 0" by arith+
    with all s'(2) show False by blast
  qed
  with s'(3) have "Suc e \<noteq> length ps" by arith
  with stop have ns: "\<not> is_anomaly (ps ! Suc e)" by blast
  with s'(1) have "Suc e \<noteq> s'" by auto
  with \<open>e < s'\<close> ns show ?thesis by arith
qed

lemma separated_runs:
  assumes "maximal_run ps s e" and "maximal_run ps s' e'" and "s < s'"
  shows "separated ps (s, e) (s', e')"
  using maximal_run_order [OF assms] by (auto simp: separated_def)

lemma ends_cases:
  "filter (maximal_run ps s) [s..<length ps] = [] \<or>
   (\<exists>e. filter (maximal_run ps s) [s..<length ps] = [e])"
proof (cases "s < length ps \<and> is_anomaly (ps ! s) \<and> (s = 0 \<or> \<not> is_anomaly (ps ! (s - 1)))")
  case True
  then show ?thesis using ends_single [of s ps] by blast
next
  case False
  then consider "\<not> s < length ps" | "\<not> is_anomaly (ps ! s) \<or> (0 < s \<and> is_anomaly (ps ! (s - 1)))"
    by auto
  then show ?thesis
  proof cases
    case 1
    then show ?thesis by simp
  next
    case 2
    then show ?thesis using ends_empty [of ps s] by blast
  qed
qed

lemma sorted_runs_from: "sorted_wrt (separated ps) (runs_from ps i)"
proof (induction "length ps - i" arbitrary: i)
  case 0
  then have "length ps \<le> i" by simp
  then have "runs_from ps i = []" by (simp add: runs_from_def)
  then show ?case by simp
next
  case (Suc d)
  then have lt: "i < length ps" by simp
  have tl: "sorted_wrt (separated ps) (runs_from ps (Suc i))"
    using Suc.hyps(2) by (intro Suc.hyps(1)) simp
  have cross: "separated ps x y"
    if "x \<in> set (map (Pair i) (filter (maximal_run ps i) [i..<length ps]))"
      and "y \<in> set (runs_from ps (Suc i))" for x y
  proof -
    from that(1) obtain e where x: "x = (i, e)" "maximal_run ps i e" by auto
    obtain s' e' where y: "y = (s', e')" by (cases y)
    with that(2) have "Suc i \<le> s'" "maximal_run ps s' e'" by (simp_all add: mem_runs_from)
    with x y show ?thesis using separated_runs [of ps i e s' e'] by simp
  qed
  have hd: "sorted_wrt (separated ps) (map (Pair i) (filter (maximal_run ps i) [i..<length ps]))"
    using ends_cases [of ps i] by auto
  from hd tl cross show ?case
    by (simp add: runs_from_step [OF lt] sorted_wrt_append)
qed

lemma flagged_covered:
  "k < length ps \<Longrightarrow> is_anomaly (ps ! k) \<Longrightarrow> \<exists>s e. maximal_run ps s e \<and> s \<le> k \<and> k \<le> e"
proof (induction k)
  case 0
  then have "maximal_run ps 0 (skip_run ps 0 - 1)" by (intro maximal_run_skip) simp_all
  then show ?case by blast
next
  case (Suc k)
  show ?case
  proof (cases "is_anomaly (ps ! k)")
    case False
    with Suc.prems have m: "maximal_run ps (Suc k) (skip_run ps (Suc k) - 1)"
      by (intro maximal_run_skip) simp_all
    then have "Suc k \<le> skip_run ps (Suc k) - 1" unfolding maximal_run_iff by blast
    with m show ?thesis by blast
  next
    case True
    with Suc obtain s e where m: "maximal_run ps s e" and se: "s \<le> k" "k \<le> e" by auto
    have "k \<noteq> e"
    proof
      assume "k = e"
      with m have "Suc k = length ps \<or> \<not> is_anomaly (ps ! Suc k)" unfolding maximal_run_iff by blast
      with Suc.prems show False by simp
    qed
    with se have "s \<le> Suc k" "Suc k \<le> e" by arith+
    with m show ?thesis by blast
  qed
qed

lemma run_indices_maximal_runs: "run_indices ps = maximal_runs ps"
  using run_loop_runs_from [of 0 ps "[]"] by (simp add: run_indices_def maximal_runs_def)

lemma extract_run_indices:
  "extract_anomaly_intervals ps = map (interval_of ps) (run_indices ps)"
  using extract_loop_run_loop [of ps 0 "[]"]
  by (simp add: extract_anomaly_intervals_def run_indices_def)

lemma mem_run_indices: "(s, e) \<in> set (run_indices ps) \<longleftrightarrow> maximal_run ps s e"
  by (simp add: run_indices_maximal_runs maximal_runs_def mem_runs_from)

lemma covered_once:
  assumes "k < length ps" and "is_anomaly (ps ! k)"
  shows "\<exists>!r. r \<in> set (run_indices ps) \<and> fst r \<le> k \<and> k \<le> snd r"
proof -
  from flagged_covered [OF assms] obtain s e where m: "maximal_run ps s e" "s \<le> k" "k \<le> e"
    by blast
  show ?thesis
  proof (rule ex1I [of _ "(s, e)"])
    from m show "(s, e) \<in> set (run_indices ps) \<and> fst (s, e) \<le> k \<and> k \<le> snd (s, e)"
      by (simp add: mem_run_indices)
  next
    fix r assume r: "r \<in> set (run_indices ps) \<and> fst r \<le> k \<and> k \<le> snd r"
    obtain s' e' where [simp]: "r = (s', e')" by (cases r)
    from r have m': "maximal_run ps s' e'" "s' \<le> k" "k \<le> e'" by (simp_all add: mem_run_indices)
    have "s = s'"
    proof (cases s s' rule: linorder_cases)
      case less
      from maximal_run_order [OF m(1) m'(1) less] m(3) m'(2) show ?thesis by arith
    next
      case greater
      from maximal_run_order [OF m'(1) m(1) greater] m'(3) m(2) show ?thesis by arith
    qed
    with m(1) m'(1) have "e' = e" using maximal_run_unique_end by blast
    with \<open>s = s'\<close> show "r = (s, e)" by simp
  qed
qed

lemma extract_example:
  assumes "map is_anomaly ps = [False, False, True, True, False, True, False, False, True, True, True]"
  shows "extract_anomaly_intervals ps =
           [\<lparr>start = timestamp (ps ! 2), end = timestamp (ps ! 3)\<rparr>,
            \<lparr>start = timestamp (ps ! 5), end = timestamp (ps ! 5)\<rparr>,
            \<lparr>start = timestamp (ps ! 8), end = timestamp (ps ! 10)\<rparr>]"
proof -
  let ?fs = "[False, False, True, True, False, True, False, False, True, True, True]"
  have len: "length ps = 11" using arg_cong [OF assms, of length] by simp
  have nth: "is_anomaly (ps ! k) = ?fs ! k" if "k < 11" for k
    using that len nth_map [of k ps is_anomaly] assms by simp
  have f: "\<not> is_anomaly (ps ! 0)" "\<not> is_anomaly (ps ! 1)" "is_anomaly (ps ! 2)"
    "is_anomaly (ps ! 3)" "\<not> is_anomaly (ps ! 4)" "is_anomaly (ps ! 5)"
    "\<not> is_anomaly (ps ! 6)" "\<not> is_anomaly (ps ! 7)" "is_anomaly (ps ! 8)"
    "is_anomaly (ps ! 9)" "is_anomaly (ps ! 10)"
    by (simp_all add: nth)
  have s2: "skip_run ps 2 = 4" using len f by (simp add: skip_run.simps)
  have s5: "skip_run ps 5 = 6" using len f by (simp add: skip_run.simps)
  have s8: "skip_run ps 8 = 11" using len f by (simp add: skip_run.simps)
  have e11: "extract_loop ps 11 acc = acc" for acc
    using len by (subst extract_loop.simps) simp
  have e8: "extract_loop ps 8 acc = acc @ [\<lparr>start = timestamp (ps ! 8), end = timestamp (ps ! 10)\<rparr>]" for acc
    using len f s8 e11 by (subst extract_loop.simps) (simp add: Let_def)
  have e7: "extract_loop ps 7 acc = extract_loop ps 8 acc" for acc
    using len f by (subst extract_loop.simps) simp
  have e6: "extract_loop ps 6 acc = extract_loop ps 7 acc" for acc
    using len f by (subst extract_loop.simps) simp
  have e5: "extract_loop ps 5 acc =
      extract_loop ps 6 (acc @ [\<lparr>start = timestamp (ps ! 5), end = timestamp (ps ! 5)\<rparr>])" for acc
    using len f s5 by (subst extract_loop.simps) (simp add: Let_def)
  have e4: "extract_loop ps 4 acc = extract_loop ps 5 acc" for acc
    using len f by (subst extract_loop.simps) simp
  have e2: "extract_loop ps 2 acc =
      extract_loop ps 4 (acc @ [\<lparr>start = timestamp (ps ! 2), end = timestamp (ps ! 3)\<rparr>])" for acc
    using len f s2 by (subst extract_loop.simps) (simp add: Let_def)
  have e1: "extract_loop ps 1 acc = extract_loop ps 2 acc" for acc
    using len f by (subst extract_loop.simps) (simp add: numeral_2_eq_2)
  have e0: "extract_loop ps 0 acc = extract_loop ps 1 acc" for acc
    using len f by (subst extract_loop.simps) simp
  show ?thesis
    unfolding extract_anomaly_intervals_def
    by (simp only: e0 e1 e2 e4 e5 e6 e7 e8 append_Nil append_Cons)
qed

lemma run_indices_flagged:
  assumes "r \<in> set (run_indices ps)"
  shows "fst r \<le> snd r \<and> snd r < length ps \<and> (\<forall>k \<in> set [fst r..<Suc (snd r)]. is_anomaly (ps ! k))"
proof -
  obtain s e where [simp]: "r = (s, e)" by (cases r)
  from assms have "maximal_run ps s e" by (simp add: mem_run_indices)
  then show ?thesis by (simp add: maximal_run_def)
qed

lemma run_indices_cover_example: "run_indices cover_example = [(0, 1), (4, 4)]"
proof -
  let ?ps = cover_example
  have len: "length ?ps = 5" by (simp add: cover_example_def)
  have f: "is_anomaly (?ps ! 0)" "is_anomaly (?ps ! 1)" "\<not> is_anomaly (?ps ! 2)"
    "\<not> is_anomaly (?ps ! 3)" "is_anomaly (?ps ! 4)"
    by (simp_all add: cover_example_def point_def)
  have s0: "skip_run ?ps 0 = 2" using len f by (simp add: skip_run.simps numeral_2_eq_2)
  have s4: "skip_run ?ps 4 = 5" using len f by (simp add: skip_run.simps)
  have r5: "run_loop ?ps 5 acc = acc" for acc
    using len by (subst run_loop.simps) simp
  have r4: "run_loop ?ps 4 acc = acc @ [(4, 4)]" for acc
    using len f s4 r5 by (subst run_loop.simps) (simp add: Let_def)
  have r3: "run_loop ?ps 3 acc = run_loop ?ps 4 acc" for acc
    using len f by (subst run_loop.simps) simp
  have r2: "run_loop ?ps 2 acc = run_loop ?ps 3 acc" for acc
    using len f by (subst run_loop.simps) simp
  have r0: "run_loop ?ps 0 acc = run_loop ?ps 2 (acc @ [(0, 1)])" for acc
    using len f s0 by (subst run_loop.simps) (simp add: Let_def)
  show ?thesis unfolding run_indices_def
    by (simp only: r0 r2 r3 r4 append_Nil append_Cons)
qed

section \<open>Properties of the aggregator loop\<close>

lemma sum_flags_count: "sum_flags (map is_anomaly ps) = int (count_flagged ps)"
  by (induction ps) (simp_all add: count_flagged_def)

lemma streak_loop_ge: "ms \<le> streak_loop ms cs fs"
proof (induction fs arbitrary: ms cs)
  case Nil
  then show ?case by simp
next
  case (Cons f fs)
  show ?case
  proof (cases f)
    case True
    have "ms \<le> max ms (cs + 1)" by simp
    also have "\<dots> \<le> streak_loop (max ms (cs + 1)) (cs + 1) fs" by (rule Cons.IH)
    finally show ?thesis using True by simp
  next
    case False
    then show ?thesis using Cons.IH [of ms 0] by simp
  qed
qed

lemma streak_loop_replicate:
  "cs \<le> ms \<Longrightarrow> cs + int l \<le> streak_loop ms cs (replicate l True @ post)"
proof (induction l arbitrary: ms cs)
  case 0
  then show ?case using streak_loop_ge [of ms cs post] by simp
next
  case (Suc l)
  have "cs + 1 + int l \<le> streak_loop (max ms (cs + 1)) (cs + 1) (replicate l True @ post)"
    by (rule Suc.IH) simp
  then show ?case by simp
qed

lemma streak_loop_run_le:
  assumes "0 \<le> cs" and "cs \<le> ms" and "fs = pre @ replicate l True @ post"
  shows "int l \<le> streak_loop ms cs fs"
  using assms
proof (induction pre arbitrary: fs ms cs)
  case Nil
  then show ?case using streak_loop_replicate [of cs ms l post] by simp
next
  case (Cons p pre)
  show ?case
  proof (cases p)
    case True
    have "int l \<le> streak_loop (max ms (cs + 1)) (cs + 1) (pre @ replicate l True @ post)"
      using Cons.prems by (intro Cons.IH) simp_all
    with True Cons.prems show ?thesis by simp
  next
    case False
    have "int l \<le> streak_loop ms 0 (pre @ replicate l True @ post)"
      using Cons.prems by (intro Cons.IH) simp_all
    with False Cons.prems show ?thesis by simp
  qed
qed

lemma sublist_prepend: "sublist xs ys \<Longrightarrow> sublist xs (zs @ ys)"
proof -
  assume "sublist xs ys"
  then obtain ps ss where "ys = ps @ xs @ ss" by (auto simp: sublist_def)
  then have "zs @ ys = (zs @ ps) @ xs @ ss" by simp
  then show ?thesis unfolding sublist_def by blast
qed

lemma sublist_self_append: "sublist xs (xs @ ys)"
proof -
  have "xs @ ys = [] @ xs @ ys" by simp
  then show ?thesis unfolding sublist_def by blast
qed

lemma streak_loop_attained:
  assumes "0 \<le> cs"
  shows "streak_loop ms cs fs = ms \<or>
         (0 \<le> streak_loop ms cs fs \<and>
          sublist (replicate (nat (streak_loop ms cs fs)) True) (replicate (nat cs) True @ fs))"
  using assms
proof (induction fs arbitrary: ms cs)
  case Nil
  then show ?case by simp
next
  case (Cons f fs)
  show ?case
  proof (cases f)
    case False
    let ?m = "streak_loop ms 0 fs"
    have eq: "streak_loop ms cs (f # fs) = ?m" using False by simp
    from Cons.IH [of 0 ms] have "?m = ms \<or> (0 \<le> ?m \<and> sublist (replicate (nat ?m) True) fs)"
      by simp
    then show ?thesis
    proof
      assume "?m = ms"
      with eq show ?thesis by simp
    next
      assume a: "0 \<le> ?m \<and> sublist (replicate (nat ?m) True) fs"
      then have "sublist (replicate (nat ?m) True) ((replicate (nat cs) True @ [f]) @ fs)"
        by (intro sublist_prepend) simp
      then have "sublist (replicate (nat ?m) True) (replicate (nat cs) True @ f # fs)"
        by simp
      with a eq show ?thesis by simp
    qed
  next
    case True
    let ?m = "streak_loop (max ms (cs + 1)) (cs + 1) fs"
    have eq: "streak_loop ms cs (f # fs) = ?m" using True by simp
    have rep: "replicate (nat cs) True @ f # fs = replicate (nat (cs + 1)) True @ fs"
      using True Cons.prems by (simp add: nat_add_distrib replicate_append_same)
    from Cons.prems have "0 \<le> cs + 1" by simp
    from Cons.IH [OF this, of "max ms (cs + 1)"]
    have "?m = max ms (cs + 1) \<or>
          (0 \<le> ?m \<and> sublist (replicate (nat ?m) True) (replicate (nat (cs + 1)) True @ fs))" .
    then show ?thesis
    proof
      assume m: "?m = max ms (cs + 1)"
      show ?thesis
      proof (cases "cs + 1 \<le> ms")
        case True
        with m eq show ?thesis by simp
      next
        case False
        with m eq have e2: "streak_loop ms cs (f # fs) = cs + 1" by simp
        have sl: "sublist (replicate (nat (cs + 1)) True) (replicate (nat cs) True @ f # fs)"
          unfolding rep by (rule sublist_self_append)
        have "0 \<le> cs + 1" using Cons.prems by simp
        with sl show ?thesis unfolding e2 by blast
      qed
    next
      assume "0 \<le> ?m \<and> sublist (replicate (nat ?m) True) (replicate (nat (cs + 1)) True @ fs)"
      then show ?thesis unfolding eq rep by blast
    qed
  qed
qed

lemma max_streak_is_longest_run:
  "0 \<le> streak_loop 0 0 fs \<and>
   sublist (replicate (nat (streak_loop 0 0 fs)) True) fs \<and>
   (\<forall>l. sublist (replicate l True) fs \<longrightarrow> int l \<le> streak_loop 0 0 fs)"
proof (intro conjI allI impI)
  show nn: "0 \<le> streak_loop 0 0 fs" by (rule streak_loop_ge)
  from streak_loop_attained [of 0 0 fs]
  show "sublist (replicate (nat (streak_loop 0 0 fs)) True) fs" by auto
  fix l assume "sublist (replicate l True) fs"
  then obtain pre post where "fs = pre @ replicate l True @ post" by (auto simp: sublist_def)
  then show "int l \<le> streak_loop 0 0 fs" by (intro streak_loop_run_le) simp_all
qed







lemma count_flagged_le: "count_flagged ps \<le> length ps"
  by (simp add: count_flagged_def)

lemma segment_summary_nonempty:
  assumes "ps \<noteq> []"
  shows "segment_summary ps rt st =
      Inr \<lparr>is_segment_anomaly =
             (float_ge (Finite (of_nat (count_flagged ps) / of_nat (length ps))) rt \<or>
              st \<le> streak_loop 0 0 (map is_anomaly ps)),
           reason = None,
           anomaly_ratio = Some (Finite (of_nat (count_flagged ps) / of_nat (length ps))),
           max_consecutive_anomaly = Some (streak_loop 0 0 (map is_anomaly ps)),
           rules = \<lparr>ratio_threshold = rt, streak_threshold = st\<rparr>\<rparr>"
  using assms by (simp add: segment_summary_def int_truediv_def sum_flags_count Let_def)

lemma sublist_length: "sublist xs ys \<Longrightarrow> length xs \<le> length ys"
  by (auto simp: sublist_def)

lemma streak_loop_bounds:
  "0 \<le> streak_loop 0 0 (map is_anomaly ps) \<and> streak_loop 0 0 (map is_anomaly ps) \<le> int (length ps)"
proof -
  let ?m = "streak_loop 0 0 (map is_anomaly ps)"
  from max_streak_is_longest_run [of "map is_anomaly ps"]
  have nn: "0 \<le> ?m" and sl: "sublist (replicate (nat ?m) True) (map is_anomaly ps)" by blast+
  from sublist_length [OF sl] have "nat ?m \<le> length ps" by simp
  with nn show ?thesis by simp
qed



section \<open>Properties of the request handler\<close>

lemma sort_quiet: "sort_key timestamp quiet_series =
     [obs ''t1'' (Finite 10), obs ''t2'' (Finite 11), obs ''t3'' (Finite 500),
      obs ''t4'' (Finite 12), obs ''t5'' (Finite 9), obs ''t6'' (Finite 10)]"
  by (simp add: quiet_series_def obs_def)


lemma run_isolation_forest_frame:
  "run_isolation_forest lib (DataFrame [''timestamp'', ''value''] rws) cont rs =
     (case isolation_forest lib 200 cont rs (map value rws) of
        Inl e \<Rightarrow> Inl e
      | Inr (pred_labels, scores) \<Rightarrow>
          Inr (map (\<lambda>(ts, val, sc, label).
                      \<lparr>timestamp = ts, value = val, score = sc, is_anomaly = (label = - 1)\<rparr>)
                 (zip (map timestamp rws) (zip (map value rws) (zip scores pred_labels)))))"
  by (simp add: run_isolation_forest_def detect_point_anomalies_def Let_def split: sum.splits prod.splits)

lemma detect_body_nonempty:
  assumes "data req \<noteq> []"
  shows "detect_body lib req =
     (case run_isolation_forest lib (DataFrame [''timestamp'', ''value''] (sort_values lib (data req)))
             (contamination req) (random_state req) of
        Inl e \<Rightarrow> Inl (Other e)
      | Inr point_json \<Rightarrow>
          (case segment_summary point_json (req_ratio_threshold req) (req_streak_threshold req) of
             Inl e \<Rightarrow> Inl (Other e)
           | Inr seg \<Rightarrow>
               Inr \<lparr>resp_metadata = req_metadata req,
                    anomalies = (if is_segment_anomaly seg then extract_anomaly_intervals point_json else [])\<rparr>))"
  using assms by (simp add: detect_body_def pd_DataFrame_def Let_def split: sum.splits)

lemma detect_body_empty:
  assumes "data req = []"
  shows "detect_body lib req = Inl (HTTPException 400 ''data points must include timestamp and value'')"
  using assms by (simp add: detect_body_def pd_DataFrame_def Let_def)

lemma quiet_scored:
  "run_isolation_forest stub_libs
     (DataFrame [''timestamp'', ''value''] (sort_values stub_libs quiet_series)) (Finite (1 / 20)) 42 =
   Inr quiet_points"
  by (simp add: run_isolation_forest_frame stub_libs_def stub_forest_def sort_quiet obs_def
      quiet_points_def scored_def)

lemma quiet_verdict:
  "segment_summary quiet_points (Finite (1 / 5)) 20 =
     Inr \<lparr>is_segment_anomaly = False, reason = None, anomaly_ratio = Some (Finite (1 / 6)),
          max_consecutive_anomaly = Some 1,
          rules = \<lparr>ratio_threshold = Finite (1 / 5), streak_threshold = 20\<rparr>\<rparr>"
  by (simp add: segment_summary_def int_truediv_def quiet_points_def scored_def Let_def)

lemma quiet_request_fields:
  "data (request quiet_series (Finite (1 / 20))) = quiet_series"
  "contamination (request quiet_series (Finite (1 / 20))) = Finite (1 / 20)"
  "random_state (request quiet_series (Finite (1 / 20))) = 42"
  "req_ratio_threshold (request quiet_series (Finite (1 / 20))) = Finite (1 / 5)"
  "req_streak_threshold (request quiet_series (Finite (1 / 20))) = 20"
  "req_metadata (request quiet_series (Finite (1 / 20))) = None"
  by (simp_all add: request_def)

lemma quiet_detect:
  "detect stub_libs (request quiet_series (Finite (1 / 20))) =
     Inr \<lparr>resp_metadata = None, anomalies = []\<rparr>"
proof -
  have ne: "data (request quiet_series (Finite (1 / 20))) \<noteq> []"
    by (simp add: request_def quiet_series_def)
  show ?thesis
    unfolding detect_def detect_body_nonempty [OF ne] quiet_request_fields quiet_scored
    by (simp add: quiet_verdict)
qed

section \<open>The extractor returns the maximal runs\<close>

text \<open>
  Claim C2. For every sequence of point results, the interval extractor returns one interval
  per maximal run of flagged points, in the order the runs occur, with start the timestamp
  of the run's first point and end the timestamp of its last point. In particular, when the
  flags are F,F,T,T,F,T,F,F,T,T,T the output is the three intervals from the timestamps at
  positions 2 and 3, 5 and 5, 8 and 10.
\<close>

theorem extract_maximal_runs:
  "extract_anomaly_intervals ps = map (interval_of ps) (maximal_runs ps) \<and>
   (map is_anomaly ps = [False, False, True, True, False, True, False, False, True, True, True] \<longrightarrow>
    extract_anomaly_intervals ps =
      [\<lparr>start = timestamp (ps ! 2), end = timestamp (ps ! 3)\<rparr>,
       \<lparr>start = timestamp (ps ! 5), end = timestamp (ps ! 5)\<rparr>,
       \<lparr>start = timestamp (ps ! 8), end = timestamp (ps ! 10)\<rparr>])"
  using extract_example [of ps]
  by (simp add: extract_run_indices run_indices_maximal_runs)

theorem extract_maximal_runs_witness:
  "extract_anomaly_intervals spec_example =
     [\<lparr>start = ''t2'', end = ''t3''\<rparr>, \<lparr>start = ''t5'', end = ''t5''\<rparr>, \<lparr>start = ''t8'', end = ''t10''\<rparr>] \<and>
   map (interval_of spec_example) (maximal_runs spec_example) =
     [\<lparr>start = ''t2'', end = ''t3''\<rparr>, \<lparr>start = ''t5'', end = ''t5''\<rparr>, \<lparr>start = ''t8'', end = ''t10''\<rparr>]"
proof -
  have flags: "map is_anomaly spec_example =
      [False, False, True, True, False, True, False, False, True, True, True]"
    by (simp add: spec_example_def point_def)
  have ts: "timestamp (spec_example ! 2) = ''t2''" "timestamp (spec_example ! 3) = ''t3''"
    "timestamp (spec_example ! 5) = ''t5''" "timestamp (spec_example ! 8) = ''t8''"
    "timestamp (spec_example ! 10) = ''t10''"
    by (simp_all add: spec_example_def point_def)
  note inst = extract_maximal_runs [of spec_example]
  from inst have a: "extract_anomaly_intervals spec_example =
             map (interval_of spec_example) (maximal_runs spec_example)"
    by (rule conjunct1)
  from inst flags have "extract_anomaly_intervals spec_example =
      [\<lparr>start = timestamp (spec_example ! 2), end = timestamp (spec_example ! 3)\<rparr>,
       \<lparr>start = timestamp (spec_example ! 5), end = timestamp (spec_example ! 5)\<rparr>,
       \<lparr>start = timestamp (spec_example ! 8), end = timestamp (spec_example ! 10)\<rparr>]"
    by blast
  then have b: "extract_anomaly_intervals spec_example =
      [\<lparr>start = ''t2'', end = ''t3''\<rparr>, \<lparr>start = ''t5'', end = ''t5''\<rparr>, \<lparr>start = ''t8'', end = ''t10''\<rparr>]"
    unfolding ts .
  from a b show ?thesis by metis
qed

section \<open>The intervals cover exactly the flagged points\<close>

text \<open>
  Claim C10. The positions the extractor reads its timestamps from are the index pairs of
  \<open>run_indices\<close>. Every flagged point lies in exactly one of these pairs; every pair lies
  within the sequence and contains flagged points only, so its start and end timestamps
  belong to flagged points; and any two pairs, taken in output order, are disjoint with a
  point that is not flagged strictly between them.
\<close>

theorem extract_intervals_cover:
  "extract_anomaly_intervals ps = map (interval_of ps) (run_indices ps) \<and>
   (\<forall>k < length ps. is_anomaly (ps ! k) \<longrightarrow>
      (\<exists>!r. r \<in> set (run_indices ps) \<and> fst r \<le> k \<and> k \<le> snd r)) \<and>
   (\<forall>r \<in> set (run_indices ps).
      fst r \<le> snd r \<and> snd r < length ps \<and>
      (\<forall>k \<in> set [fst r..<Suc (snd r)]. is_anomaly (ps ! k))) \<and>
   sorted_wrt (separated ps) (run_indices ps)"
proof (intro conjI)
  show "extract_anomaly_intervals ps = map (interval_of ps) (run_indices ps)"
    by (rule extract_run_indices)
  show "\<forall>k < length ps. is_anomaly (ps ! k) \<longrightarrow>
      (\<exists>!r. r \<in> set (run_indices ps) \<and> fst r \<le> k \<and> k \<le> snd r)"
    using covered_once by blast
  show "\<forall>r \<in> set (run_indices ps).
      fst r \<le> snd r \<and> snd r < length ps \<and>
      (\<forall>k \<in> set [fst r..<Suc (snd r)]. is_anomaly (ps ! k))"
    using run_indices_flagged by blast
  show "sorted_wrt (separated ps) (run_indices ps)"
    by (simp add: run_indices_maximal_runs maximal_runs_def sorted_runs_from)
qed

theorem extract_intervals_cover_witness:
  "extract_anomaly_intervals cover_example =
     [\<lparr>start = ''09:00'', end = ''09:01''\<rparr>, \<lparr>start = ''09:04'', end = ''09:04''\<rparr>] \<and>
   (\<exists>!r. r \<in> set [(0::nat, 1::nat), (4, 4)] \<and> fst r \<le> (1::nat) \<and> 1 \<le> snd r) \<and>
   sorted_wrt (separated cover_example) [(0, 1), (4, 4)] \<and>
   is_anomaly (cover_example ! 1)"
proof -
  note inst = extract_intervals_cover [of cover_example, unfolded run_indices_cover_example]
  have len: "1 < length cover_example" and f: "is_anomaly (cover_example ! 1)"
    by (simp_all add: cover_example_def point_def)
  from inst have "extract_anomaly_intervals cover_example =
      map (interval_of cover_example) [(0, 1), (4, 4)]" by (rule conjunct1)
  then have a: "extract_anomaly_intervals cover_example =
     [\<lparr>start = ''09:00'', end = ''09:01''\<rparr>, \<lparr>start = ''09:04'', end = ''09:04''\<rparr>]"
    by (simp add: interval_of_def cover_example_def point_def)
  from inst [THEN conjunct2, THEN conjunct1, THEN spec, of 1] len f
  have b: "\<exists>!r. r \<in> set [(0::nat, 1::nat), (4, 4)] \<and> fst r \<le> (1::nat) \<and> 1 \<le> snd r"
    by (simp only: simp_thms)
  have c: "sorted_wrt (separated cover_example) [(0, 1), (4, 4)]"
    by (rule inst [THEN conjunct2, THEN conjunct2, THEN conjunct2])
  from a b c f show ?thesis by (intro conjI)
qed

section \<open>Empty input\<close>

text \<open>
  Claim C4. Aggregating the empty sequence returns a verdict (no exception, in particular
  no division by zero) that is not anomalous, carries the reason marker "empty", and has
  neither the ratio nor the streak field; the thresholds are echoed under rules.
\<close>

theorem segment_summary_empty:
  "segment_summary [] rt st =
     Inr \<lparr>is_segment_anomaly = False, reason = Some ''empty'',
          anomaly_ratio = None, max_consecutive_anomaly = None,
          rules = \<lparr>ratio_threshold = rt, streak_threshold = st\<rparr>\<rparr>"
  by (simp add: segment_summary_def)

section \<open>The segment verdict\<close>



section \<open>Ratio and longest streak\<close>



section \<open>Bounds on the verdict\<close>

text \<open>
  Claim C8. For every non-empty sequence of point results the ratio lies between 0 and 1 and
  the longest streak between 0 and the total; and of two sequences of the same length, the
  one with at least as many flagged points has at least as large a ratio.
\<close>

theorem segment_bounds:
  assumes "ps \<noteq> []" and "length ps' = length ps"
  shows "\<exists>v v' r r' m. segment_summary ps rt st = Inr v \<and> segment_summary ps' rt' st' = Inr v' \<and>
      anomaly_ratio v = Some (Finite r) \<and> anomaly_ratio v' = Some (Finite r') \<and>
      0 \<le> r \<and> r \<le> 1 \<and>
      max_consecutive_anomaly v = Some m \<and> 0 \<le> m \<and> m \<le> int (length ps) \<and>
      (count_flagged ps \<le> count_flagged ps' \<longrightarrow> r \<le> r')"
proof -
  from assms have ne': "ps' \<noteq> []" by auto
  let ?r = "(of_nat (count_flagged ps) :: rat) / of_nat (length ps)"
  let ?r' = "(of_nat (count_flagged ps') :: rat) / of_nat (length ps)"
  have "0 \<le> ?r" by simp
  moreover have "?r \<le> 1" using assms(1) count_flagged_le [of ps] by (simp add: divide_le_eq_1)
  moreover have "?r \<le> ?r'" if "count_flagged ps \<le> count_flagged ps'"
    using that by (intro divide_right_mono) simp_all
  moreover note streak_loop_bounds [of ps]
  ultimately show ?thesis
    unfolding segment_summary_nonempty [OF assms(1)] segment_summary_nonempty [OF ne'] assms(2)
    by simp
qed

theorem segment_bounds_witness:
  "\<exists>v v' m. segment_summary sparse_example (Finite (1 / 5)) 20 = Inr v \<and>
     segment_summary dense_example (Finite (1 / 5)) 20 = Inr v' \<and>
     anomaly_ratio v = Some (Finite (1 / 4)) \<and> anomaly_ratio v' = Some (Finite (3 / 4)) \<and>
     max_consecutive_anomaly v = Some m \<and> 0 \<le> m \<and> m \<le> 4"
proof -
  have ne: "sparse_example \<noteq> []" and len: "length dense_example = length sparse_example"
    "length sparse_example = 4"
    and cnt: "count_flagged sparse_example = 1" "count_flagged dense_example = 3"
    by (simp_all add: sparse_example_def dense_example_def point_def count_flagged_def)
  from segment_bounds [OF ne len(1), of "Finite (1 / 5)" 20 "Finite (1 / 5)" 20]
  obtain v v' r r' m where a: "segment_summary sparse_example (Finite (1 / 5)) 20 = Inr v"
    "segment_summary dense_example (Finite (1 / 5)) 20 = Inr v'"
    "anomaly_ratio v = Some (Finite r)" "anomaly_ratio v' = Some (Finite r')"
    "max_consecutive_anomaly v = Some m" "0 \<le> m" "m \<le> int (length sparse_example)"
    by blast
  have ne': "dense_example \<noteq> []" by (simp add: dense_example_def)
  from a(1,3) have "r = 1 / 4"
    unfolding segment_summary_nonempty [OF ne] by (auto simp: cnt len)
  moreover from a(2,4) have "r' = 3 / 4"
    unfolding segment_summary_nonempty [OF ne'] by (auto simp: cnt len)
  ultimately show ?thesis using a len by auto
qed

section \<open>Intervals only for an anomalous segment\<close>

text \<open>
  Claim C5. Whenever a detection request is answered, the answer's list of anomalies is the
  extractor's output if the segment verdict is anomalous and the empty list otherwise: a
  verdict that is not anomalous gives an empty list without the extractor's result being
  used, and a non-empty list implies an anomalous verdict.
\<close>

theorem detect_intervals_only_when_anomalous:
  assumes "detect lib req = Inr resp"
  shows "\<exists>pts seg.
      run_isolation_forest lib (DataFrame [''timestamp'', ''value''] (sort_values lib (data req)))
        (contamination req) (random_state req) = Inr pts \<and>
      segment_summary pts (req_ratio_threshold req) (req_streak_threshold req) = Inr seg \<and>
      anomalies resp = (if is_segment_anomaly seg then extract_anomaly_intervals pts else []) \<and>
      (\<not> is_segment_anomaly seg \<longrightarrow> anomalies resp = []) \<and>
      (anomalies resp \<noteq> [] \<longrightarrow> is_segment_anomaly seg)"
proof -
  have ne: "data req \<noteq> []"
  proof
    assume "data req = []"
    from detect_body_empty [OF this, of lib] assms show False by (simp add: detect_def)
  qed
  from assms have body: "detect_body lib req = Inr resp"
    by (auto simp: detect_def split: sum.splits exn.splits py_error.splits)
  let ?run = "run_isolation_forest lib (DataFrame [''timestamp'', ''value''] (sort_values lib (data req)))
        (contamination req) (random_state req)"
  from body obtain pts where pts: "?run = Inr pts"
    unfolding detect_body_nonempty [OF ne] by (cases ?run) simp_all
  let ?seg = "segment_summary pts (req_ratio_threshold req) (req_streak_threshold req)"
  from body pts obtain seg where seg: "?seg = Inr seg"
    unfolding detect_body_nonempty [OF ne] by (cases ?seg) simp_all
  from body pts seg have
    "resp = \<lparr>resp_metadata = req_metadata req,
             anomalies = (if is_segment_anomaly seg then extract_anomaly_intervals pts else [])\<rparr>"
    unfolding detect_body_nonempty [OF ne] by simp
  then have a: "anomalies resp = (if is_segment_anomaly seg then extract_anomaly_intervals pts else [])"
    by simp
  then have "\<not> is_segment_anomaly seg \<longrightarrow> anomalies resp = []"
    and "anomalies resp \<noteq> [] \<longrightarrow> is_segment_anomaly seg" by (simp_all split: if_splits)
  with pts seg a show ?thesis by blast
qed

theorem detect_intervals_only_when_anomalous_witness:
  "detect stub_libs (request quiet_series (Finite (1 / 20))) =
     Inr \<lparr>resp_metadata = None, anomalies = []\<rparr> \<and>
   (\<exists>pts seg.
      run_isolation_forest stub_libs
        (DataFrame [''timestamp'', ''value''] (sort_values stub_libs quiet_series)) (Finite (1 / 20)) 42 =
        Inr pts \<and>
      segment_summary pts (Finite (1 / 5)) 20 = Inr seg \<and>
      \<not> is_segment_anomaly seg \<and> count_flagged pts = 1 \<and>
      (if is_segment_anomaly seg then extract_anomaly_intervals pts else []) = [])"
proof -
  from detect_intervals_only_when_anomalous [OF quiet_detect]
  obtain pts seg where
    pts: "run_isolation_forest stub_libs
        (DataFrame [''timestamp'', ''value''] (sort_values stub_libs quiet_series)) (Finite (1 / 20)) 42 =
        Inr pts"
    and seg: "segment_summary pts (Finite (1 / 5)) 20 = Inr seg"
    and an: "anomalies \<lparr>resp_metadata = None, anomalies = []\<rparr> =
        (if is_segment_anomaly seg then extract_anomaly_intervals pts else [])"
    unfolding quiet_request_fields by blast
  from pts have p: "pts = quiet_points" unfolding quiet_scored by simp
  from seg have "\<not> is_segment_anomaly seg" unfolding p quiet_verdict by auto
  moreover have "count_flagged pts = 1"
    unfolding p by (simp add: count_flagged_def quiet_points_def scored_def)
  moreover from an have "(if is_segment_anomaly seg then extract_anomaly_intervals pts else []) = []"
    by simp
  ultimately show ?thesis using quiet_detect pts seg by blast
qed

section \<open>Failures of the scorer\<close>




section \<open>A series of length 0\<close>

text \<open>
  Claim C7 states that scoring a series of length 0 returns an empty result sequence without
  an error. A request with an empty data list is answered with status 400 instead.
\<close>

theorem empty_series_is_client_error:
  "detect stub_libs (request [] (Finite (1 / 20))) =
     Inl (HTTPException 400 ''data points must include timestamp and value'')"
  by (simp add: detect_def detect_body_def pd_DataFrame_def request_def Let_def)

text \<open>
  Claim C7, amended. A detection request whose data list is empty is rejected with status
  400 and the detail "data points must include timestamp and value", whatever the
  libraries do. The scorer's own code, on a frame with both columns and no rows, returns
  the empty result sequence if the isolation forest call returns and passes on that call's
  exception otherwise.
\<close>

theorem empty_series_rejected:
  "(data req = [] \<longrightarrow>
      detect lib req = Inl (HTTPException 400 ''data points must include timestamp and value'')) \<and>
   run_isolation_forest lib (DataFrame [''timestamp'', ''value''] []) cont rs =
     (case isolation_forest lib 200 cont rs [] of Inl e \<Rightarrow> Inl e | Inr _ \<Rightarrow> Inr [])"
proof
  show "data req = [] \<longrightarrow>
      detect lib req = Inl (HTTPException 400 ''data points must include timestamp and value'')"
    by (simp add: detect_def detect_body_empty)
  show "run_isolation_forest lib (DataFrame [''timestamp'', ''value''] []) cont rs =
     (case isolation_forest lib 200 cont rs [] of Inl e \<Rightarrow> Inl e | Inr _ \<Rightarrow> Inr [])"
    by (simp add: run_isolation_forest_frame split: sum.splits prod.splits)
qed

theorem empty_series_rejected_witness:
  "data labelled_request = [] \<and>
   detect stub_libs labelled_request =
     Inl (HTTPException 400 ''data points must include timestamp and value'') \<and>
   run_isolation_forest stub_libs (DataFrame [''timestamp'', ''value''] []) (Finite (1 / 10)) 7 =
     Inl (PyError ''ValueError'' ''Found array with 0 sample(s)'')"
proof -
  have e: "data labelled_request = []" by (simp add: labelled_request_def)
  have f: "isolation_forest stub_libs 200 (Finite (1 / 10)) 7 [] =
      Inl (PyError ''ValueError'' ''Found array with 0 sample(s)'')"
    by (simp add: stub_libs_def stub_forest_def)
  note inst = empty_series_rejected [of labelled_request stub_libs "Finite (1 / 10)" 7]
  from inst e have "detect stub_libs labelled_request =
     Inl (HTTPException 400 ''data points must include timestamp and value'')" by blast
  moreover from inst have "run_isolation_forest stub_libs (DataFrame [''timestamp'', ''value''] [])
      (Finite (1 / 10)) 7 = Inl (PyError ''ValueError'' ''Found array with 0 sample(s)'')"
    unfolding f by simp
  ultimately show ?thesis using e by blast
qed

end
